theory Spec2Isabelle
  imports Main "HOL-Library.Char_ord"
begin

section \<open>The scanner of package scan (scan/scan.go)\<close>

text \<open>
  A Go string is a sequence of bytes: it is a \<open>string\<close> here, every \<open>char\<close> one byte.
  The indices \<open>start\<close>, \<open>current\<close> and the counter \<open>line\<close> are Go \<open>int\<close>s that only
  count upwards from 0 or 1 and stay far below \<open>2^63\<close>; they are natural numbers.
\<close>

subsection \<open>Tokens\<close>

text \<open>
  The constants of \<open>Type\<close>, in the order of the \<open>iota\<close> block. \<open>Plus\<close>, \<open>True\<close>,
  \<open>False\<close>, \<open>Int\<close>, \<open>Let\<close> and \<open>If\<close> are names of HOL already and carry the suffix
  \<open>T\<close>.
\<close>

datatype Type =
    EOF | Newline
  | LeftParen | RightParen | LeftBracket | RightBracket | LeftCurly | RightCurly
  | LeftAngle | RightAngle | Assign | Comma | Dot | Colon | SemiColon | Bang
  | Slash | Star | PlusT | Minus | Pipe
  | Equals | NotEquals | GreaterEquals | LesserEquals
  | Identifier | String | Number | TrueT | FalseT
  | Struct | Return | IntT | Double | Float | Bool | For | In | LetT | IfT | Else

record Token =
  Type :: Type
  Line :: nat
  Text :: string

definition keywordOrIdentifier :: "string \<Rightarrow> Type" where
  "keywordOrIdentifier text =
     (if text = ''struct'' then Struct
      else if text = ''return'' then Return
      else if text = ''int'' then IntT
      else if text = ''double'' then Double
      else if text = ''float'' then Float
      else if text = ''bool'' then Bool
      else if text = ''for'' then For
      else if text = ''in'' then In
      else if text = ''let'' then LetT
      else if text = ''if'' then IfT
      else if text = ''else'' then Else
      else if text = ''true'' then TrueT
      else if text = ''false'' then FalseT
      else Identifier)"

subsection \<open>Scanner state\<close>

record Scanner =
  tokens :: "Token list"
  source :: string
  start :: nat
  current :: nat
  line :: nat
  errors :: "string list"

definition NewScanner :: "string \<Rightarrow> Scanner" where
  "NewScanner src =
     \<lparr>tokens = [], source = src, start = 0, current = 0, line = 1, errors = []\<rparr>"

subsection \<open>Formatting\<close>

text \<open>The verb \<open>%d\<close> of \<open>fmt.Sprintf\<close> on a number that is never negative.\<close>

fun itoa :: "nat \<Rightarrow> string" where
  "itoa n = (if n < 10 then [char_of (48 + n)]
             else itoa (n div 10) @ [char_of (48 + n mod 10)])"

declare itoa.simps [simp del]

text \<open>
  The verb \<open>%c\<close> on a byte prints the code point of that value in UTF-8: the byte
  itself below \<open>0x80\<close>, two bytes from \<open>0x80\<close> on.
\<close>

definition fmt_c :: "char \<Rightarrow> string" where
  "fmt_c c = (let n = (of_char c :: nat) in
               if n < 128 then [c]
               else [char_of (192 + n div 64), char_of (128 + n mod 64)])"

subsection \<open>Helpers\<close>

definition "end" :: "Scanner \<Rightarrow> bool" where
  "end s = (current s \<ge> length (source s))"

text \<open>
  \<open>advance\<close> increments the cursor first and tests for the end afterwards. The byte it
  reads, \<open>source[current-1]\<close>, is in range: the new cursor is at least 1 and below the
  length. The reads of \<open>peek\<close>, \<open>peekNext\<close> and \<open>match\<close> are in range by their tests too.
\<close>

definition advance :: "Scanner \<Rightarrow> char \<times> Scanner" where
  "advance s =
     (let s' = s\<lparr>current := current s + 1\<rparr> in
      if \<not> end s' then (source s' ! (current s' - 1), s') else (CHR 0x00, s'))"

definition peek :: "Scanner \<Rightarrow> char" where
  "peek s = (if end s then CHR 0x00 else source s ! current s)"

definition peekNext :: "Scanner \<Rightarrow> char" where
  "peekNext s =
     (if current s + 1 \<ge> length (source s) then CHR 0x00 else source s ! (current s + 1))"

definition match :: "char \<Rightarrow> Scanner \<Rightarrow> bool \<times> Scanner" where
  "match c s =
     (if end s then (False, s)
      else if source s ! current s \<noteq> c then (False, s)
      else (True, s\<lparr>current := current s + 1\<rparr>))"

definition addToken :: "Token \<Rightarrow> Scanner \<Rightarrow> Scanner" where
  "addToken token s = s\<lparr>tokens := tokens s @ [token]\<rparr>"

definition newToken :: "Scanner \<Rightarrow> Type \<Rightarrow> string \<Rightarrow> Token" where
  "newToken s tokenType text = \<lparr>Type = tokenType, Line = line s, Text = text\<rparr>"

text \<open>
  A slice expression \<open>str[lo:hi]\<close> panics unless \<open>lo \<le> hi \<le> len(str)\<close>; the panic is
  the value \<open>None\<close>.
\<close>

definition slice :: "string \<Rightarrow> nat \<Rightarrow> nat \<Rightarrow> string option" where
  "slice str lo hi =
     (if lo \<le> hi \<and> hi \<le> length str then Some (take (hi - lo) (drop lo str)) else None)"

definition lexeme :: "Scanner \<Rightarrow> string option" where
  "lexeme s = slice (source s) (start s) (current s)"

definition err :: "string \<Rightarrow> Scanner \<Rightarrow> Scanner" where
  "err msg s = s\<lparr>errors := errors s @ [msg @ '' on line '' @ itoa (line s)]\<rparr>"

definition isDigit :: "char \<Rightarrow> bool" where
  "isDigit c = (c \<ge> CHR ''0'' \<and> c \<le> CHR ''9'')"

definition isAlpha :: "char \<Rightarrow> bool" where
  "isAlpha c = ((c \<ge> CHR ''a'' \<and> c \<le> CHR ''z'') \<or>
                (c \<ge> CHR ''A'' \<and> c \<le> CHR ''Z'') \<or>
                c = CHR ''_'')"

definition isAlphaNumeric :: "char \<Rightarrow> bool" where
  "isAlphaNumeric c = (isAlpha c \<or> isDigit c)"

lemma end_advance_less:
  "\<not> end s \<Longrightarrow>
   length (source (snd (advance s))) - current (snd (advance s))
     < length (source s) - current s"
  by (auto simp: end_def advance_def Let_def)

lemma isDigit_peek_not_end: "isDigit (peek s) \<Longrightarrow> \<not> end s"
  by (auto simp: isDigit_def peek_def less_eq_char_def)

lemma isAlphaNumeric_peek_not_end: "isAlphaNumeric (peek s) \<Longrightarrow> \<not> end s"
  by (auto simp: isAlphaNumeric_def isAlpha_def isDigit_def peek_def less_eq_char_def)

subsection \<open>The loops of the sub-scanners\<close>

text \<open>The loop \<open>for scanner.peek() != '\n' && !scanner.end()\<close> of a line comment.\<close>

function comment_loop :: "Scanner \<Rightarrow> Scanner" where
  "comment_loop s =
     (if peek s \<noteq> CHR 0x0A \<and> \<not> end s then comment_loop (snd (advance s)) else s)"
  by pat_completeness auto
termination
  by (relation "measure (\<lambda>s. length (source s) - current s)")
     (auto simp: end_advance_less)

text \<open>The loop \<open>for isAlphaNumeric(scanner.peek())\<close> of \<open>identifier\<close>.\<close>

function identifier_loop :: "Scanner \<Rightarrow> Scanner" where
  "identifier_loop s =
     (if isAlphaNumeric (peek s) then identifier_loop (snd (advance s)) else s)"
  by pat_completeness auto
termination
  by (relation "measure (\<lambda>s. length (source s) - current s)")
     (auto simp: end_advance_less isAlphaNumeric_peek_not_end)

text \<open>The loop \<open>for isDigit(scanner.peek())\<close>, which \<open>numberLiteral\<close> runs twice.\<close>

function digit_loop :: "Scanner \<Rightarrow> Scanner" where
  "digit_loop s = (if isDigit (peek s) then digit_loop (snd (advance s)) else s)"
  by pat_completeness auto
termination
  by (relation "measure (\<lambda>s. length (source s) - current s)")
     (auto simp: end_advance_less isDigit_peek_not_end)

text \<open>The loop \<open>for scanner.peek() != '"' && !scanner.end()\<close> of \<open>stringLiteral\<close>.\<close>

function string_loop :: "Scanner \<Rightarrow> Scanner" where
  "string_loop s =
     (if peek s \<noteq> CHR 0x22 \<and> \<not> end s
      then string_loop
             (snd (advance (if peek s = CHR 0x0A then err ''unterminated string'' s else s)))
      else s)"
  by pat_completeness auto
termination
  by (relation "measure (\<lambda>s. length (source s) - current s)")
     (auto simp: end_def advance_def Let_def err_def)

declare comment_loop.simps [simp del]
declare identifier_loop.simps [simp del]
declare digit_loop.simps [simp del]
declare string_loop.simps [simp del]

subsection \<open>The sub-scanners\<close>

definition "identifier" :: "Scanner \<Rightarrow> Scanner option" where
  "identifier s =
     (let s1 = identifier_loop s in
      case lexeme s1 of
        None \<Rightarrow> None
      | Some text \<Rightarrow> Some (addToken (newToken s1 (keywordOrIdentifier text) text) s1))"

definition numberLiteral :: "Scanner \<Rightarrow> Scanner option" where
  "numberLiteral s =
     (let s1 = digit_loop s;
          s2 = (if peek s1 = CHR ''.'' \<and> isDigit (peekNext s1)
                then digit_loop (snd (advance s1)) else s1)
      in case lexeme s2 of
           None \<Rightarrow> None
         | Some text \<Rightarrow> Some (addToken (newToken s2 Number text) s2))"

text \<open>
  In \<open>source[start+1 : current-1]\<close> the cursor has just been incremented by \<open>advance\<close>,
  so \<open>current - 1\<close> is not negative.
\<close>

definition stringLiteral :: "Scanner \<Rightarrow> Scanner option" where
  "stringLiteral s =
     (let s1 = string_loop s in
      if end s1 then Some (err ''unterminated string'' s1)
      else let s2 = snd (advance s1) in
           case slice (source s2) (start s2 + 1) (current s2 - 1) of
             None \<Rightarrow> None
           | Some literal \<Rightarrow> Some (addToken (newToken s2 String literal) s2))"

subsection \<open>One dispatch cycle\<close>

text \<open>
  The \<open>switch\<close> of \<open>scanToken\<close> repeats two shapes of case, which are named here.
  \<open>single\<close> is \<open>scanner.addToken(scanner.newToken(t, string(c)))\<close>; every byte it is
  used on is below \<open>0x80\<close>, where \<open>string(c)\<close> is the one byte \<open>c\<close>.
\<close>

definition single :: "Type \<Rightarrow> char \<Rightarrow> Scanner \<Rightarrow> Scanner option" where
  "single t c s = Some (addToken (newToken s t [c]) s)"

text \<open>
  \<open>double\<close> is the case of \<open><\<close>, \<open>>\<close>, \<open>=\<close> and \<open>!\<close>: if \<open>match('=')\<close> succeeds the token has
  the kind \<open>t2\<close> and the lexeme as text, else it is the single token of kind \<open>t1\<close>.
\<close>

definition double :: "Type \<Rightarrow> Type \<Rightarrow> char \<Rightarrow> Scanner \<Rightarrow> Scanner option" where
  "double t2 t1 c s =
     (case match CHR ''='' s of
        (True, s') \<Rightarrow> (case lexeme s' of
                        None \<Rightarrow> None
                      | Some text \<Rightarrow> Some (addToken (newToken s' t2 text) s'))
      | (False, s') \<Rightarrow> single t1 c s')"

definition scanToken :: "Scanner \<Rightarrow> Scanner option" where
  "scanToken s0 =
     (case advance s0 of (c, s) \<Rightarrow>
      if c = CHR ''('' then single LeftParen c s
      else if c = CHR '')'' then single RightParen c s
      else if c = CHR ''['' then single LeftBracket c s
      else if c = CHR '']'' then single RightBracket c s
      else if c = CHR ''{'' then single LeftCurly c s
      else if c = CHR ''}'' then single RightCurly c s
      else if c = CHR ''<'' then double LesserEquals LeftAngle c s
      else if c = CHR ''>'' then double GreaterEquals RightAngle c s
      else if c = CHR ''='' then double Equals Assign c s
      else if c = CHR ''!'' then double NotEquals Bang c s
      else if c = CHR '','' then single Comma c s
      else if c = CHR ''.'' then single Dot c s
      else if c = CHR '':'' then single Colon c s
      else if c = CHR '';'' then single SemiColon c s
      else if c = CHR ''/'' then
        (case match CHR ''/'' s of
           (True, s') \<Rightarrow> Some (comment_loop s')
         | (False, s') \<Rightarrow> single Slash c s')
      else if c = CHR ''*'' then single Star c s
      else if c = CHR ''+'' then single PlusT c s
      else if c = CHR ''-'' then single Minus c s
      else if c = CHR ''|'' then single Pipe c s
      else if c = CHR 0x22 then stringLiteral s
      else if c = CHR '' '' then Some s
      else if c = CHR 0x0D then Some s
      else if c = CHR 0x09 then Some s
      else if c = CHR 0x0A then single Newline c (s\<lparr>line := line s + 1\<rparr>)
      else if isDigit c then numberLiteral s
      else if isAlpha c then identifier s
      else if c \<noteq> CHR 0x00
           then Some (err (''Unexpected character '' @ [CHR 0x27] @ fmt_c c @ [CHR 0x27]) s)
           else Some s)"

lemma advance_source [simp]: "source (snd (advance s)) = source s"
  by (simp add: advance_def Let_def)

lemma advance_current [simp]: "current (snd (advance s)) = Suc (current s)"
  by (simp add: advance_def Let_def)

subsection \<open>What a dispatch cycle changes\<close>

text \<open>
  \<open>in_bounds\<close> is the invariant of the cursor. \<open>ext s s'\<close> says what any piece of a
  dispatch cycle may do to the state: the source stays, the cursor and the line counter
  do not go back, the cursor stays in bounds, tokens other than \<open>EOF\<close> and diagnostics
  are appended and none is removed.
\<close>

definition in_bounds :: "Scanner \<Rightarrow> bool" where
  "in_bounds s = (start s \<le> current s \<and> current s \<le> length (source s))"

definition ext :: "Scanner \<Rightarrow> Scanner \<Rightarrow> bool" where
  "ext s s' =
     (source s' = source s \<and> current s \<le> current s' \<and> line s \<le> line s' \<and>
      (in_bounds s \<longrightarrow> in_bounds s') \<and>
      (\<exists>new. tokens s' = tokens s @ new \<and> (\<forall>t \<in> set new. Type t \<noteq> EOF)) \<and>
      (\<exists>es. errors s' = errors s @ es))"

lemma ext_refl [simp]: "ext s s"
  by (simp add: ext_def)

lemma ext_trans: "ext s s1 \<Longrightarrow> ext s1 s2 \<Longrightarrow> ext s s2"
  unfolding ext_def by (elim conjE exE) (simp, blast)

lemma ext_advance: "\<not> end s \<Longrightarrow> ext s (snd (advance s))"
  by (auto simp: ext_def advance_def Let_def end_def in_bounds_def)

lemma ext_err [simp]: "ext s (err m s)"
  by (simp add: ext_def err_def in_bounds_def)

lemma ext_addToken: "Type t \<noteq> EOF \<Longrightarrow> ext s (addToken t s)"
  by (simp add: ext_def addToken_def in_bounds_def)

lemma ext_match: "ext s (snd (match c s))"
  by (auto simp: ext_def match_def in_bounds_def end_def)

lemma ext_comment_loop: "ext s (comment_loop s)"
proof (induction s rule: comment_loop.induct)
  case (1 s)
  show ?case
  proof (cases "peek s \<noteq> CHR 0x0A \<and> \<not> end s")
    case True
    then have "comment_loop s = comment_loop (snd (advance s))"
      by (subst comment_loop.simps) simp
    with ext_trans[OF ext_advance 1[OF True]] True show ?thesis
      by simp
  next
    case False
    then show ?thesis by (subst comment_loop.simps) auto
  qed
qed

lemma ext_identifier_loop: "ext s (identifier_loop s)"
proof (induction s rule: identifier_loop.induct)
  case (1 s)
  show ?case
  proof (cases "isAlphaNumeric (peek s)")
    case True
    then have "identifier_loop s = identifier_loop (snd (advance s))"
      by (subst identifier_loop.simps) simp
    with ext_trans[OF ext_advance 1[OF True]] True show ?thesis
      by (simp add: isAlphaNumeric_peek_not_end)
  next
    case False
    then show ?thesis by (subst identifier_loop.simps) auto
  qed
qed

lemma ext_digit_loop: "ext s (digit_loop s)"
proof (induction s rule: digit_loop.induct)
  case (1 s)
  show ?case
  proof (cases "isDigit (peek s)")
    case True
    then have "digit_loop s = digit_loop (snd (advance s))"
      by (subst digit_loop.simps) simp
    with ext_trans[OF ext_advance 1[OF True]] True show ?thesis
      by (simp add: isDigit_peek_not_end)
  next
    case False
    then show ?thesis by (subst digit_loop.simps) auto
  qed
qed

lemma end_err [simp]: "end (err m s) = end s"
  by (simp add: end_def err_def)

lemma ext_string_loop: "ext s (string_loop s)"
proof (induction s rule: string_loop.induct)
  case (1 s)
  show ?case
  proof (cases "peek s \<noteq> CHR 0x22 \<and> \<not> end s")
    case True
    let ?s1 = "if peek s = CHR 0x0A then err ''unterminated string'' s else s"
    from True have e: "string_loop s = string_loop (snd (advance ?s1))"
      by (subst string_loop.simps) simp
    have "ext s ?s1" by simp
    moreover have "ext ?s1 (snd (advance ?s1))" using True by (intro ext_advance) simp
    ultimately have "ext s (snd (advance ?s1))" by (rule ext_trans)
    then have "ext s (string_loop (snd (advance ?s1)))"
      using 1[OF True] by (rule ext_trans)
    then show ?thesis unfolding e .
  next
    case False
    then show ?thesis by (subst string_loop.simps) auto
  qed
qed

lemma ext_addToken_trans: "ext s s1 \<Longrightarrow> Type t \<noteq> EOF \<Longrightarrow> ext s (addToken t s1)"
  using ext_trans[OF _ ext_addToken] by blast

lemma ext_single: "t \<noteq> EOF \<Longrightarrow> single t c s = Some s' \<Longrightarrow> ext s s'"
  by (auto simp: single_def newToken_def intro: ext_addToken)

lemma ext_double: "t2 \<noteq> EOF \<Longrightarrow> t1 \<noteq> EOF \<Longrightarrow> double t2 t1 c s = Some s' \<Longrightarrow> ext s s'"
  using ext_match[of s "CHR ''=''"]
  by (cases "match CHR ''='' s")
     (auto simp: double_def single_def newToken_def
           split: bool.splits option.splits
           intro!: ext_addToken_trans)

lemma keywordOrIdentifier_not_EOF [simp]: "keywordOrIdentifier text \<noteq> EOF"
  by (simp add: keywordOrIdentifier_def)

lemma ext_identifier: "identifier s = Some s' \<Longrightarrow> ext s s'"
  using ext_identifier_loop[of s]
  by (auto simp: identifier_def Let_def newToken_def split: option.splits
           intro!: ext_addToken_trans)

lemma peek_not_end: "peek s = c \<Longrightarrow> c \<noteq> CHR 0x00 \<Longrightarrow> \<not> end s"
  by (auto simp: peek_def)

lemma ext_numberLiteral: "numberLiteral s = Some s' \<Longrightarrow> ext s s'"
proof -
  let ?s1 = "digit_loop s"
  let ?s2 = "if peek ?s1 = CHR ''.'' \<and> isDigit (peekNext ?s1)
             then digit_loop (snd (advance ?s1)) else ?s1"
  assume a: "numberLiteral s = Some s'"
  have "ext ?s1 ?s2"
    using ext_trans[OF ext_advance ext_digit_loop, of ?s1] peek_not_end[of ?s1 "CHR ''.''"]
    by auto
  with ext_digit_loop[of s] have "ext s ?s2" by (rule ext_trans)
  moreover from a have "s' = addToken (newToken ?s2 Number (the (lexeme ?s2))) ?s2"
    by (auto simp: numberLiteral_def Let_def split: option.splits)
  ultimately show ?thesis
    by (auto simp: newToken_def intro!: ext_trans[OF _ ext_addToken])
qed

lemma ext_stringLiteral: "stringLiteral s = Some s' \<Longrightarrow> ext s s'"
proof -
  let ?s1 = "string_loop s"
  assume a: "stringLiteral s = Some s'"
  show ?thesis
  proof (cases "end ?s1")
    case True
    with a have "s' = err ''unterminated string'' ?s1"
      by (simp add: stringLiteral_def Let_def)
    then show ?thesis using ext_trans[OF ext_string_loop ext_err] by simp
  next
    case False
    let ?s2 = "snd (advance ?s1)"
    from False a obtain lit where "s' = addToken (newToken ?s2 String lit) ?s2"
      by (auto simp: stringLiteral_def Let_def split: option.splits)
    moreover have "ext s ?s2"
      using ext_trans[OF ext_string_loop ext_advance[OF False]] .
    ultimately show ?thesis
      by (auto simp: newToken_def intro!: ext_trans[OF _ ext_addToken])
  qed
qed

lemma ext_slash:
  "(case match CHR ''/'' s of (True, s') \<Rightarrow> Some (comment_loop s') | (False, s') \<Rightarrow> single Slash c s') = Some s'
   \<Longrightarrow> ext s s'"
  using ext_match[of s "CHR ''/''"] ext_trans[OF ext_match ext_comment_loop, of s "CHR ''/''"]
  by (cases "match CHR ''/'' s")
     (auto simp: single_def newToken_def split: bool.splits intro!: ext_addToken_trans)

lemma ext_newline:
  "single Newline c (s\<lparr>line := Suc (line s)\<rparr>) = Some s' \<Longrightarrow> ext s s'"
  by (auto simp: single_def newToken_def addToken_def ext_def in_bounds_def)

lemma ext_scanToken_aux: "scanToken s = Some s' \<Longrightarrow> ext (snd (advance s)) s'"
  unfolding scanToken_def
  by (cases "advance s")
     (auto split: if_splits
           dest: ext_double[rotated 2] ext_identifier ext_numberLiteral ext_stringLiteral ext_slash
                 ext_single[rotated] ext_newline)

lemma scanToken_progress:
  assumes "scanToken s = Some s'"
  shows "source s' = source s" and "current s < current s'"
  using ext_scanToken_aux[OF assms] by (simp_all add: ext_def)

subsection \<open>The main loop\<close>

text \<open>
  The loop of \<open>Scan\<close>: \<open>for !scanner.end() { scanner.start = scanner.current;
  scanner.scanToken() }\<close>. A panic inside a cycle ends the run with \<open>None\<close>.
\<close>

function scan_loop :: "Scanner \<Rightarrow> Scanner option" where
  "scan_loop s =
     (if end s then Some s
      else case scanToken (s\<lparr>start := current s\<rparr>) of
             None \<Rightarrow> None
           | Some s' \<Rightarrow> scan_loop s')"
  by pat_completeness auto
termination
proof (relation "measure (\<lambda>s. length (source s) - current s)")
  show "wf (measure (\<lambda>s. length (source s) - current s))" by simp
next
  fix s s'
  assume "\<not> end s" and "scanToken (s\<lparr>start := current s\<rparr>) = Some s'"
  then show "(s', s) \<in> measure (\<lambda>s. length (source s) - current s)"
    using scanToken_progress[of "s\<lparr>start := current s\<rparr>" s']
    by (auto simp: end_def)
qed

declare scan_loop.simps [simp del]

definition Scan :: "Scanner \<Rightarrow> (Token list \<times> string list) option" where
  "Scan s =
     (case scan_loop s of
        None \<Rightarrow> None
      | Some s1 \<Rightarrow>
          let s2 = addToken \<lparr>Type = EOF, Line = line s1, Text = []\<rparr> s1
          in Some (tokens s2, errors s2))"

text \<open>What a caller does with a source text: \<open>scan.NewScanner(src)\<close>, then \<open>Scan()\<close>.\<close>

definition scan :: "string \<Rightarrow> (Token list \<times> string list) option" where
  "scan src = Scan (NewScanner src)"

subsection \<open>No cycle panics, and the loop reaches the end\<close>

lemma lexeme_in_bounds: "in_bounds s \<Longrightarrow> \<exists>text. lexeme s = Some text"
  by (simp add: lexeme_def slice_def in_bounds_def)

lemma identifier_total: "in_bounds s \<Longrightarrow> \<exists>s'. identifier s = Some s'"
  using ext_identifier_loop[of s] lexeme_in_bounds[of "identifier_loop s"]
  by (auto simp: identifier_def Let_def ext_def)

lemma numberLiteral_total:
  assumes "in_bounds s" shows "\<exists>s'. numberLiteral s = Some s'"
proof -
  let ?s1 = "digit_loop s"
  let ?s2 = "if peek ?s1 = CHR ''.'' \<and> isDigit (peekNext ?s1)
             then digit_loop (snd (advance ?s1)) else ?s1"
  have "ext ?s1 ?s2"
    using ext_trans[OF ext_advance ext_digit_loop, of ?s1] peek_not_end[of ?s1 "CHR ''.''"]
    by auto
  with ext_digit_loop[of s] have "ext s ?s2" by (rule ext_trans)
  with assms have "in_bounds ?s2" by (simp add: ext_def)
  from lexeme_in_bounds[OF this] show ?thesis
    by (auto simp: numberLiteral_def Let_def)
qed

lemma start_string_loop [simp]: "start (string_loop s) = start s"
proof (induction s rule: string_loop.induct)
  case (1 s)
  show ?case
  proof (cases "peek s \<noteq> CHR 0x22 \<and> \<not> end s")
    case True
    then show ?thesis
      using 1[OF True]
      by (subst string_loop.simps) (simp add: advance_def Let_def err_def)
  next
    case False
    then show ?thesis by (subst string_loop.simps) auto
  qed
qed

lemma stringLiteral_total:
  assumes "start s < current s" "current s \<le> length (source s)"
  shows "\<exists>s'. stringLiteral s = Some s'"
proof (cases "end (string_loop s)")
  case True
  then show ?thesis by (simp add: stringLiteral_def Let_def)
next
  case False
  let ?s1 = "string_loop s"
  have "source ?s1 = source s" "current s \<le> current ?s1"
    using ext_string_loop[of s] by (simp_all add: ext_def)
  with assms False show ?thesis
    by (simp add: stringLiteral_def Let_def slice_def advance_def end_def)
qed

lemma scanToken_total:
  assumes "in_bounds s" "\<not> end s"
  shows "\<exists>s'. scanToken s = Some s'"
proof -
  obtain c s1 where a: "advance s = (c, s1)" by (cases "advance s")
  then have s1: "s1 = s\<lparr>current := Suc (current s)\<rparr>"
    by (auto simp: advance_def Let_def split: if_splits)
  with assms have b: "in_bounds s1" "start s1 < current s1" "current s1 \<le> length (source s1)"
    by (auto simp: in_bounds_def end_def)
  have m: "\<And>x. in_bounds (snd (match x s1))"
    using ext_match[of s1] b(1) by (simp add: ext_def)
  have d: "\<And>t2 t1 x. double t2 t1 x s1 \<noteq> None"
    using lexeme_in_bounds[OF m[of "CHR ''=''"]]
    by (cases "match CHR ''='' s1") (auto simp: double_def single_def split: bool.splits)
  have sl: "(case match CHR ''/'' s1 of (True, s') \<Rightarrow> Some (comment_loop s')
             | (False, s') \<Rightarrow> single Slash c s') \<noteq> None"
    by (cases "match CHR ''/'' s1") (auto simp: single_def split: bool.splits)
  have i: "identifier s1 \<noteq> None" using identifier_total[OF b(1)] by auto
  have n: "numberLiteral s1 \<noteq> None" using numberLiteral_total[OF b(1)] by auto
  have st: "stringLiteral s1 \<noteq> None" using stringLiteral_total[OF b(2,3)] by auto
  have "scanToken s \<noteq> None"
    unfolding scanToken_def a using d sl i n st
    by (auto simp: single_def)
  then show ?thesis by auto
qed

lemma scan_loop_ext:
  "in_bounds s \<Longrightarrow> \<exists>s'. scan_loop s = Some s' \<and> ext s s' \<and> end s'"
proof (induction s rule: scan_loop.induct)
  case (1 s)
  show ?case
  proof (cases "end s")
    case True
    then show ?thesis by (subst scan_loop.simps) simp
  next
    case False
    let ?s0 = "s\<lparr>start := current s\<rparr>"
    from 1(2) have b0: "in_bounds ?s0" and e0: "ext s ?s0"
      by (simp_all add: in_bounds_def ext_def)
    from False have "\<not> end ?s0" by (simp add: end_def)
    from scanToken_total[OF b0 this] obtain s1 where s1: "scanToken ?s0 = Some s1" ..
    have "ext (snd (advance ?s0)) s1" using s1 by (rule ext_scanToken_aux)
    with ext_advance[OF \<open>\<not> end ?s0\<close>] have "ext ?s0 s1" by (rule ext_trans)
    with e0 have e1: "ext s s1" by (rule ext_trans)
    with 1(2) have "in_bounds s1" by (simp add: ext_def)
    from 1(1)[OF False s1 this] obtain s' where
      s': "scan_loop s1 = Some s'" "ext s1 s'" "end s'" by blast
    from e1 s'(2) have "ext s s'" by (rule ext_trans)
    moreover have "scan_loop s = Some s'"
      using False s1 s'(1) by (subst scan_loop.simps) simp
    ultimately show ?thesis using s'(3) by simp
  qed
qed

lemma in_bounds_NewScanner [simp]: "in_bounds (NewScanner src)"
  by (simp add: in_bounds_def NewScanner_def)

subsection \<open>The states at the head of the main loop\<close>

text \<open>
  \<open>start\<close> is assigned at the head of the loop only; no part of a cycle changes it.
  \<open>loop_head src s\<close>: the scan of \<open>src\<close> tests the loop condition of \<open>Scan\<close> in state \<open>s\<close>.
\<close>

lemma start_advance [simp]: "start (snd (advance s)) = start s"
  by (simp add: advance_def Let_def)

lemma start_match [simp]: "start (snd (match c s)) = start s"
  by (simp add: match_def)

lemma start_comment_loop [simp]: "start (comment_loop s) = start s"
proof (induction s rule: comment_loop.induct)
  case (1 s)
  then show ?case by (subst comment_loop.simps) simp
qed

lemma start_identifier_loop [simp]: "start (identifier_loop s) = start s"
proof (induction s rule: identifier_loop.induct)
  case (1 s)
  then show ?case by (subst identifier_loop.simps) simp
qed

lemma start_digit_loop [simp]: "start (digit_loop s) = start s"
proof (induction s rule: digit_loop.induct)
  case (1 s)
  then show ?case by (subst digit_loop.simps) simp
qed

lemma start_single: "single t c s = Some s' \<Longrightarrow> start s' = start s"
  by (auto simp: single_def addToken_def)

lemma start_double: "double t2 t1 c s = Some s' \<Longrightarrow> start s' = start s"
  using start_match[of "CHR ''=''" s]
  by (cases "match CHR ''='' s")
     (auto simp: double_def single_def addToken_def split: bool.splits option.splits)

lemma start_identifier: "identifier s = Some s' \<Longrightarrow> start s' = start s"
  by (auto simp: identifier_def Let_def addToken_def split: option.splits)

lemma start_numberLiteral: "numberLiteral s = Some s' \<Longrightarrow> start s' = start s"
  by (auto simp: numberLiteral_def Let_def addToken_def split: option.splits if_splits)

lemma start_stringLiteral: "stringLiteral s = Some s' \<Longrightarrow> start s' = start s"
  by (auto simp: stringLiteral_def Let_def addToken_def err_def split: option.splits if_splits)

lemma start_slash:
  "(case match CHR ''/'' s of (True, s') \<Rightarrow> Some (comment_loop s') | (False, s') \<Rightarrow> single Slash c s') = Some s'
   \<Longrightarrow> start s' = start s"
  using start_match[of "CHR ''/''" s]
  by (cases "match CHR ''/'' s") (auto simp: single_def addToken_def split: bool.splits)

lemma start_scanToken: "scanToken s = Some s' \<Longrightarrow> start s' = start s"
  unfolding scanToken_def
  using start_advance[of s]
  by (cases "advance s")
     (auto simp: err_def split: if_splits
           dest: start_double start_identifier start_numberLiteral start_stringLiteral
                 start_slash start_single)

inductive loop_head :: "string \<Rightarrow> Scanner \<Rightarrow> bool" for src :: string where
  init: "loop_head src (NewScanner src)"
| cycle: "loop_head src s \<Longrightarrow> \<not> end s \<Longrightarrow> scanToken (s\<lparr>start := current s\<rparr>) = Some s'
          \<Longrightarrow> loop_head src s'"

lemma cycle_ext:
  assumes "\<not> end s" "scanToken (s\<lparr>start := current s\<rparr>) = Some s'"
  shows "ext (s\<lparr>start := current s\<rparr>) s'"
proof -
  let ?s0 = "s\<lparr>start := current s\<rparr>"
  from assms(1) have "\<not> end ?s0" by (simp add: end_def)
  from ext_trans[OF ext_advance[OF this] ext_scanToken_aux[OF assms(2)]] show ?thesis .
qed

lemma loop_head_in_bounds: "loop_head src s \<Longrightarrow> source s = src \<and> in_bounds s"
proof (induction rule: loop_head.induct)
  case init
  show ?case by (simp add: NewScanner_def in_bounds_def)
next
  case (cycle s s')
  have "in_bounds (s\<lparr>start := current s\<rparr>)"
    using cycle.IH by (auto simp: in_bounds_def)
  with cycle_ext[OF cycle.hyps(2,3)] cycle.IH show ?case
    by (simp add: ext_def)
qed

lemma advance_NUL:
  "current s < length (source s) \<Longrightarrow> source s ! current s = CHR 0x00 \<Longrightarrow>
   advance s = (CHR 0x00, s\<lparr>current := Suc (current s)\<rparr>)"
  by (simp add: advance_def Let_def end_def)

lemma isDigit_NUL [simp]: "\<not> isDigit (CHR 0x00)"
  by (simp add: isDigit_def less_eq_char_def)

lemma isAlpha_NUL [simp]: "\<not> isAlpha (CHR 0x00)"
  by (simp add: isAlpha_def less_eq_char_def)

subsection \<open>The loop of a string literal, run on a given body\<close>

lemma peek_at:
  "source s = xs @ c # ys \<Longrightarrow> current s = length xs \<Longrightarrow> peek s = c \<and> \<not> end s"
  by (simp add: peek_def end_def)

lemma string_loop_body:
  "source s = xs @ body @ rest \<Longrightarrow> current s = length xs \<Longrightarrow>
   CHR 0x22 \<notin> set body \<Longrightarrow> rest = [] \<or> hd rest = CHR 0x22 \<Longrightarrow>
   string_loop s =
     s\<lparr>current := length xs + length body,
       errors := errors s @
         replicate (count_list body (CHR 0x0A))
           (''unterminated string on line '' @ itoa (line s))\<rparr>"
proof (induction body arbitrary: s xs)
  case Nil
  have "\<not> (peek s \<noteq> CHR 0x22 \<and> \<not> end s)"
  proof (cases rest)
    case Nil
    with Nil.prems(1,2) show ?thesis by (simp add: end_def)
  next
    case (Cons r rs)
    with Nil.prems(4) have "source s = xs @ CHR 0x22 # rs" using Nil.prems(1) by simp
    from peek_at[OF this Nil.prems(2)] show ?thesis by simp
  qed
  then show ?case using Nil.prems(2) by (subst string_loop.simps) auto
next
  case (Cons c body)
  let ?s0 = "if peek s = CHR 0x0A then err ''unterminated string'' s else s"
  let ?s1 = "snd (advance ?s0)"
  from Cons.prems have pk: "peek s = c" "\<not> end s" "c \<noteq> CHR 0x22"
    using peek_at[of s xs c "body @ rest"] by auto
  then have e: "string_loop s = string_loop ?s1"
    by (subst string_loop.simps) simp
  have src1: "source ?s1 = (xs @ [c]) @ body @ rest"
    using Cons.prems(1) by (simp add: err_def)
  have cur1: "current ?s1 = length (xs @ [c])"
    using Cons.prems(2) by (simp add: err_def)
  have nq: "CHR 0x22 \<notin> set body" using Cons.prems(3) by simp
  have s1: "?s1 = s\<lparr>current := Suc (length xs),
                      errors := errors s @ (if c = CHR 0x0A
                         then [''unterminated string on line '' @ itoa (line s)] else [])\<rparr>"
    using pk Cons.prems(2) by (simp add: advance_def Let_def err_def)
  show ?case
    unfolding e Cons.IH[OF src1 cur1 nq Cons.prems(4)]
    by (subst (1 2 3) s1) (simp add: replicate_app_Cons_same)
qed

subsection \<open>The line of the tokens of a cycle\<close>

text \<open>
  \<open>emits s s'\<close>: from \<open>s\<close> to \<open>s'\<close> the line counter is the same, and the tokens
  appended carry that line and are not \<open>Newline\<close> tokens. It holds from the state after
  the first \<open>advance\<close> of a cycle to the end of the cycle, unless the byte read is a
  newline.
\<close>

definition emits :: "Scanner \<Rightarrow> Scanner \<Rightarrow> bool" where
  "emits s s' =
     (line s' = line s \<and>
      (\<exists>new. tokens s' = tokens s @ new \<and>
             (\<forall>t \<in> set new. Line t = line s \<and> Type t \<noteq> Newline)))"

lemma emits_refl [simp]: "emits s s"
  by (simp add: emits_def)












lemma keywordOrIdentifier_not_Newline [simp]: "keywordOrIdentifier text \<noteq> Newline"
  by (simp add: keywordOrIdentifier_def)







subsection \<open>Newlines before the cursor\<close>

text \<open>
  \<open>newlines_before src p\<close> counts the newline bytes of \<open>src\<close> strictly before position
  \<open>p\<close>. \<open>unterminated d\<close>: the diagnostic \<open>d\<close> is one of \<open>stringLiteral\<close>.
  \<open>no_nl s s'\<close>: the bytes between the cursors of \<open>s\<close> and \<open>s'\<close> hold no newline.
\<close>

definition newlines_before :: "string \<Rightarrow> nat \<Rightarrow> nat" where
  "newlines_before src p = count_list (take p src) (CHR 0x0A)"

definition unterminated :: "string \<Rightarrow> bool" where
  "unterminated d = (take 19 d = ''unterminated string'')"

definition no_nl :: "Scanner \<Rightarrow> Scanner \<Rightarrow> bool" where
  "no_nl s s' =
     (newlines_before (source s) (current s') = newlines_before (source s) (current s))"


lemma no_nl_refl [simp]: "no_nl s s"
  by (simp add: no_nl_def)




lemma no_nl_err [simp]: "no_nl s (err m s)"
  by (simp add: no_nl_def err_def)


lemma source_comment_loop [simp]: "source (comment_loop s) = source s"
  using ext_comment_loop[of s] by (simp add: ext_def)

lemma source_identifier_loop [simp]: "source (identifier_loop s) = source s"
  using ext_identifier_loop[of s] by (simp add: ext_def)

lemma source_digit_loop [simp]: "source (digit_loop s) = source s"
  using ext_digit_loop[of s] by (simp add: ext_def)

lemma source_string_loop [simp]: "source (string_loop s) = source s"
  using ext_string_loop[of s] by (simp add: ext_def)






lemma unterminated_msg [simp]: "unterminated (''unterminated string'' @ rest)"
  by (simp add: unterminated_def)

lemma errors_advance [simp]: "errors (snd (advance s)) = errors s"
  by (simp add: advance_def Let_def)













subsection \<open>The tokens of one cycle, and the line counter at the loop head\<close>

text \<open>
  \<open>cycle_tokens s\<close>: the tokens that the dispatch cycle starting at loop head \<open>s\<close>
  appends. Their first byte is at the cursor of \<open>s\<close>, where the cycle sets \<open>start\<close>.
  They are part of what the scan returns (\<open>cycle_tokens_in_result\<close>).
\<close>

definition cycle_tokens :: "Scanner \<Rightarrow> Token list" where
  "cycle_tokens s =
     (case scanToken (s\<lparr>start := current s\<rparr>) of
        None \<Rightarrow> []
      | Some s' \<Rightarrow> drop (length (tokens s)) (tokens s'))"

lemma advance_byte:
  "Suc (current s) < length (source s) \<Longrightarrow> fst (advance s) = source s ! current s"
  by (simp add: advance_def Let_def end_def)




lemma loop_head_scan_loop: "loop_head src s \<Longrightarrow> scan_loop s = scan_loop (NewScanner src)"
proof (induction rule: loop_head.induct)
  case init
  show ?case by simp
next
  case (cycle s s')
  have "scan_loop s = scan_loop s'"
    using cycle.hyps(2,3) by (subst scan_loop.simps) simp
  with cycle.IH show ?case by simp
qed

lemma cycle_tokens_in_result:
  assumes "loop_head src s" and "\<not> end s"
  shows "\<exists>sf rest. scan_loop (NewScanner src) = Some sf \<and>
                   tokens sf = tokens s @ cycle_tokens s @ rest"
proof -
  let ?s0 = "s\<lparr>start := current s\<rparr>"
  from loop_head_in_bounds[OF assms(1)] have "in_bounds ?s0"
    by (auto simp: in_bounds_def)
  moreover from assms(2) have "\<not> end ?s0" by (simp add: end_def)
  ultimately obtain s' where s': "scanToken ?s0 = Some s'"
    using scanToken_total by blast
  from cycle_ext[OF assms(2) s'] obtain new where new: "tokens s' = tokens s @ new"
    by (auto simp: ext_def)
  then have ct: "cycle_tokens s = new" by (simp add: cycle_tokens_def s')
  have "loop_head src s'" using assms s' by (rule loop_head.cycle)
  from loop_head_in_bounds[OF this] have "in_bounds s'" by simp
  from scan_loop_ext[OF this] obtain sf where
    sf: "scan_loop s' = Some sf" "ext s' sf" by blast
  from sf(2) obtain rest where "tokens sf = tokens s' @ rest" by (auto simp: ext_def)
  with new ct have "tokens sf = tokens s @ cycle_tokens s @ rest" by simp
  moreover have "scan_loop (NewScanner src) = Some sf"
    using loop_head_scan_loop[OF \<open>loop_head src s'\<close>] sf(1) by simp
  ultimately show ?thesis by blast
qed


subsection \<open>The diagnostics of a scan\<close>

text \<open>
  \<open>diagnostic d\<close>: \<open>d\<close> is one of the two messages the scanner records, the one of
  \<open>stringLiteral\<close> or the one of the default case of \<open>scanToken\<close>, which names a byte
  other than zero. \<open>diags s s'\<close>: the diagnostics of \<open>s'\<close> that \<open>s\<close> has not are such
  messages.
\<close>

definition diagnostic :: "string \<Rightarrow> bool" where
  "diagnostic d =
     ((\<exists>l. d = ''unterminated string on line '' @ itoa l) \<or>
      (\<exists>c l. c \<noteq> CHR 0x00 \<and>
             d = ''Unexpected character '' @ [CHR 0x27] @ fmt_c c @ [CHR 0x27] @
                 '' on line '' @ itoa l))"

definition diags :: "Scanner \<Rightarrow> Scanner \<Rightarrow> bool" where
  "diags s s' = (\<forall>d \<in> set (errors s'). d \<in> set (errors s) \<or> diagnostic d)"

lemma diags_refl [simp]: "diags s s"
  by (simp add: diags_def)

lemma diags_trans: "diags s s1 \<Longrightarrow> diags s1 s2 \<Longrightarrow> diags s s2"
  unfolding diags_def by blast

lemma diags_same: "errors s' = errors s \<Longrightarrow> diags s s'"
  by (simp add: diags_def)

lemma errors_match [simp]: "errors (snd (match c s)) = errors s"
  by (simp add: match_def)

lemma errors_comment_loop [simp]: "errors (comment_loop s) = errors s"
proof (induction s rule: comment_loop.induct)
  case (1 s)
  then show ?case by (subst comment_loop.simps) simp
qed

lemma errors_identifier_loop [simp]: "errors (identifier_loop s) = errors s"
proof (induction s rule: identifier_loop.induct)
  case (1 s)
  then show ?case by (subst identifier_loop.simps) simp
qed

lemma errors_digit_loop [simp]: "errors (digit_loop s) = errors s"
proof (induction s rule: digit_loop.induct)
  case (1 s)
  then show ?case by (subst digit_loop.simps) simp
qed

lemma diags_unterminated: "diags s (err ''unterminated string'' s)"
  by (auto simp: diags_def err_def diagnostic_def)

lemma diags_string_loop: "diags s (string_loop s)"
proof (induction s rule: string_loop.induct)
  case (1 s)
  show ?case
  proof (cases "peek s \<noteq> CHR 0x22 \<and> \<not> end s")
    case True
    let ?s0 = "if peek s = CHR 0x0A then err ''unterminated string'' s else s"
    from True have e: "string_loop s = string_loop (snd (advance ?s0))"
      by (subst string_loop.simps) simp
    have "diags s ?s0" by (simp add: diags_unterminated)
    moreover have "diags ?s0 (snd (advance ?s0))" by (rule diags_same) (rule errors_advance)
    ultimately have "diags s (snd (advance ?s0))" by (rule diags_trans)
    then have "diags s (string_loop (snd (advance ?s0)))"
      using 1[OF True] by (rule diags_trans)
    then show ?thesis unfolding e .
  next
    case False
    then show ?thesis by (subst string_loop.simps) auto
  qed
qed

lemma diags_single: "single t c s = Some s' \<Longrightarrow> diags s s'"
  by (auto simp: single_def addToken_def intro!: diags_same)

lemma diags_double: "double t2 t1 c s = Some s' \<Longrightarrow> diags s s'"
  using errors_match[of "CHR ''=''" s]
  by (cases "match CHR ''='' s")
     (auto simp: double_def single_def addToken_def split: bool.splits option.splits
           intro!: diags_same)

lemma diags_identifier: "identifier s = Some s' \<Longrightarrow> diags s s'"
  by (auto simp: identifier_def Let_def addToken_def split: option.splits intro!: diags_same)

lemma diags_numberLiteral: "numberLiteral s = Some s' \<Longrightarrow> diags s s'"
  by (auto simp: numberLiteral_def Let_def addToken_def split: option.splits if_splits
           intro!: diags_same)

lemma diags_stringLiteral: "stringLiteral s = Some s' \<Longrightarrow> diags s s'"
proof -
  let ?s1 = "string_loop s"
  assume a: "stringLiteral s = Some s'"
  have "diags ?s1 s'"
  proof (cases "end ?s1")
    case True
    with a have "s' = err ''unterminated string'' ?s1"
      by (simp add: stringLiteral_def Let_def)
    then show ?thesis by (simp add: diags_unterminated)
  next
    case False
    with a have "errors s' = errors ?s1"
      by (auto simp: stringLiteral_def Let_def addToken_def split: option.splits)
    then show ?thesis by (rule diags_same)
  qed
  with diags_string_loop show ?thesis by (rule diags_trans)
qed

lemma diags_slash:
  "(case match CHR ''/'' s of (True, s') \<Rightarrow> Some (comment_loop s') | (False, s') \<Rightarrow> single Slash c s') = Some s'
   \<Longrightarrow> diags s s'"
  using errors_match[of "CHR ''/''" s]
  by (cases "match CHR ''/'' s")
     (auto simp: single_def addToken_def split: bool.splits intro!: diags_same)

lemma diags_unexpected:
  "c \<noteq> CHR 0x00 \<Longrightarrow>
   diags s (err (''Unexpected character '' @ [CHR 0x27] @ fmt_c c @ [CHR 0x27]) s)"
  unfolding diags_def err_def diagnostic_def by auto

lemma diags_newline: "single Newline c (s\<lparr>line := Suc (line s)\<rparr>) = Some s' \<Longrightarrow> diags s s'"
  by (auto simp: single_def addToken_def intro!: diags_same)

lemma diags_scanToken: "scanToken s = Some s' \<Longrightarrow> diags (snd (advance s)) s'"
  unfolding scanToken_def
  by (cases "advance s")
     (auto simp del: append.simps split: if_splits
           dest: diags_double diags_identifier diags_numberLiteral diags_stringLiteral
                 diags_slash diags_single diags_newline
           intro: diags_unexpected)

lemma diags_scan_loop: "scan_loop s = Some s' \<Longrightarrow> diags s s'"
proof (induction s rule: scan_loop.induct)
  case (1 s)
  show ?case
  proof (cases "end s")
    case True
    with 1(2) show ?thesis by (subst (asm) scan_loop.simps) simp
  next
    case False
    let ?s0 = "s\<lparr>start := current s\<rparr>"
    from False 1(2) obtain s1 where s1: "scanToken ?s0 = Some s1" "scan_loop s1 = Some s'"
      by (subst (asm) scan_loop.simps) (auto split: option.splits)
    have "diags s (snd (advance ?s0))" by (rule diags_same) simp
    then have "diags s s1" using diags_scanToken[OF s1(1)] by (rule diags_trans)
    then show ?thesis using 1(1)[OF False s1] by (rule diags_trans)
  qed
qed

lemma scan_diagnostics:
  assumes "scan src = Some (toks, errs)" and "d \<in> set errs"
  shows "diagnostic d"
proof -
  from assms(1) obtain s' where s': "scan_loop (NewScanner src) = Some s'" "errs = errors s'"
    by (auto simp: scan_def Scan_def Let_def addToken_def split: option.splits)
  from diags_scan_loop[OF s'(1)] assms(2) s'(2) show ?thesis
    by (auto simp: diags_def NewScanner_def)
qed

lemma fmt_c_NUL:
  assumes "c \<noteq> CHR 0x00"
  shows "\<exists>x xs. fmt_c c = x # xs \<and> x \<noteq> CHR 0x00"
proof (cases "(of_char c :: nat) < 128")
  case True
  with assms show ?thesis by (simp add: fmt_c_def)
next
  case False
  let ?k = "192 + (of_char c :: nat) div 64"
  have "(of_char c :: nat) mod 256 < 256" by simp
  then have "(of_char c :: nat) < 4 * 64" by (simp only: of_char_mod_256)
  then have "(of_char c :: nat) div 64 < 4" by (rule less_mult_imp_div_less)
  then have "?k mod 256 = ?k" by simp
  then have k: "(of_char (char_of ?k) :: nat) = ?k" by (simp only: of_char_of)
  have "char_of ?k \<noteq> CHR 0x00"
  proof
    assume "char_of ?k = CHR 0x00"
    then have "(of_char (char_of ?k) :: nat) = of_char (CHR 0x00)" by (rule arg_cong)
    with k show False by simp
  qed
  with False show ?thesis by (simp add: fmt_c_def Let_def)
qed

lemma diagnostic_not_NUL:
  assumes "diagnostic d"
  shows "d \<noteq> ''Unexpected character '' @ [CHR 0x27, CHR 0x00, CHR 0x27] @ '' on line '' @ itoa l"
proof
  assume d: "d = ''Unexpected character '' @ [CHR 0x27, CHR 0x00, CHR 0x27] @ '' on line '' @ itoa l"
  from assms consider
      k where "d = ''unterminated string on line '' @ itoa k"
    | c k where "c \<noteq> CHR 0x00"
        "d = ''Unexpected character '' @ [CHR 0x27] @ fmt_c c @ [CHR 0x27] @ '' on line '' @ itoa k"
    unfolding diagnostic_def by blast
  then show False
  proof cases
    case 1
    with d show False by simp
  next
    case 2
    from fmt_c_NUL[OF 2(1)] obtain x xs where "fmt_c c = x # xs" "x \<noteq> CHR 0x00" by blast
    with 2(2) d show False by simp
  qed
qed

lemma unexpected_character_cycle:
  assumes "Suc (current s) < length (source s)" and "c = source s ! current s"
    and "c \<notin> set (''()[]{}<>=!,.:;/*+-|'' @ [CHR 0x22, CHR '' '', CHR 0x0D, CHR 0x09, CHR 0x0A])"
    and "\<not> isDigit c" and "\<not> isAlpha c" and "c \<noteq> CHR 0x00"
  shows "scanToken (s\<lparr>start := current s\<rparr>) =
           Some (s\<lparr>start := current s, current := Suc (current s),
                   errors := errors s @
                     [''Unexpected character '' @ [CHR 0x27] @ fmt_c c @ [CHR 0x27] @
                      '' on line '' @ itoa (line s)]\<rparr>)"
proof -
  have "advance (s\<lparr>start := current s\<rparr>) = (c, s\<lparr>start := current s, current := Suc (current s)\<rparr>)"
    using assms(1,2) by (simp add: advance_def Let_def end_def)
  then show ?thesis
    using assms(3-6) by (simp add: scanToken_def err_def)
qed

subsection \<open>The byte reads, with their panics\<close>

text \<open>
  An index expression \<open>source[i]\<close> panics unless \<open>i < len(source)\<close>: \<open>byte_at\<close> gives
  \<open>None\<close> then. The four helpers that read a byte are written once more with
  \<open>byte_at\<close> for every read, the panic being the result \<open>None\<close>. Each of them returns
  what the helper above returns, in every state: the test that precedes each read
  keeps it in range.
\<close>

definition byte_at :: "string \<Rightarrow> nat \<Rightarrow> char option" where
  "byte_at str i = (if i < length str then Some (str ! i) else None)"

definition advance_checked :: "Scanner \<Rightarrow> (char \<times> Scanner) option" where
  "advance_checked s =
     (let s' = s\<lparr>current := current s + 1\<rparr> in
      if \<not> end s'
      then (case byte_at (source s') (current s' - 1) of
              None \<Rightarrow> None
            | Some c \<Rightarrow> Some (c, s'))
      else Some (CHR 0x00, s'))"

definition peek_checked :: "Scanner \<Rightarrow> char option" where
  "peek_checked s = (if end s then Some (CHR 0x00) else byte_at (source s) (current s))"

definition peekNext_checked :: "Scanner \<Rightarrow> char option" where
  "peekNext_checked s =
     (if current s + 1 \<ge> length (source s) then Some (CHR 0x00)
      else byte_at (source s) (current s + 1))"

definition match_checked :: "char \<Rightarrow> Scanner \<Rightarrow> (bool \<times> Scanner) option" where
  "match_checked c s =
     (if end s then Some (False, s)
      else (case byte_at (source s) (current s) of
              None \<Rightarrow> None
            | Some b \<Rightarrow> if b \<noteq> c then Some (False, s)
                        else Some (True, s\<lparr>current := current s + 1\<rparr>)))"

lemma advance_checked_eq: "advance_checked s = Some (advance s)"
  by (simp add: advance_checked_def advance_def Let_def byte_at_def end_def)

lemma peek_checked_eq: "peek_checked s = Some (peek s)"
  by (simp add: peek_checked_def peek_def byte_at_def end_def)

lemma peekNext_checked_eq: "peekNext_checked s = Some (peekNext s)"
  by (simp add: peekNext_checked_def peekNext_def byte_at_def)

lemma match_checked_eq: "match_checked c s = Some (match c s)"
  by (simp add: match_checked_def match_def byte_at_def end_def)

subsection \<open>The states inside a dispatch cycle\<close>

text \<open>
  \<open>iterates cond body s0 s\<close>: the loop \<open>for cond { body }\<close>, entered in state \<open>s0\<close>, tests
  its condition in state \<open>s\<close>. The four loops of the sub-scanners are such loops
  (\<open>comment_loop_iterates\<close> and the three lemmas after it: the state a loop function
  returns is the one where the condition fails).

  \<open>in_cycle s0 p\<close>: \<open>scanToken\<close>, called in state \<open>s0\<close>, is in state \<open>p\<close> after one of its
  operations on the scanner: at entry, after the first \<open>advance\<close>, after a \<open>match\<close>, at
  a test of one of the loops, after the \<open>err\<close> inside the loop of \<open>stringLiteral\<close>, after
  the \<open>advance\<close> over a closing quote, after \<open>line++\<close>, after the \<open>advance\<close> over the
  dot of a number, and when it returns.

  \<open>during src p\<close>: the scan of \<open>src\<close> is in state \<open>p\<close> at some point: at the head of
  the main loop, inside a dispatch cycle, whose entry is the state after
  \<open>start = current\<close>, or after the final token is appended.
\<close>

inductive iterates :: "(Scanner \<Rightarrow> bool) \<Rightarrow> (Scanner \<Rightarrow> Scanner) \<Rightarrow> Scanner \<Rightarrow> Scanner \<Rightarrow> bool"
  for cond :: "Scanner \<Rightarrow> bool" and body :: "Scanner \<Rightarrow> Scanner" and s0 :: Scanner where
  entry: "iterates cond body s0 s0"
| again: "iterates cond body s0 s \<Longrightarrow> cond s \<Longrightarrow> iterates cond body s0 (body s)"

definition step :: "Scanner \<Rightarrow> Scanner" where
  "step s = snd (advance s)"

definition comment_cond :: "Scanner \<Rightarrow> bool" where
  "comment_cond s = (peek s \<noteq> CHR 0x0A \<and> \<not> end s)"

definition identifier_cond :: "Scanner \<Rightarrow> bool" where
  "identifier_cond s = isAlphaNumeric (peek s)"

definition digit_cond :: "Scanner \<Rightarrow> bool" where
  "digit_cond s = isDigit (peek s)"

definition string_cond :: "Scanner \<Rightarrow> bool" where
  "string_cond s = (peek s \<noteq> CHR 0x22 \<and> \<not> end s)"

definition string_body :: "Scanner \<Rightarrow> Scanner" where
  "string_body s =
     snd (advance (if peek s = CHR 0x0A then err ''unterminated string'' s else s))"

inductive in_cycle :: "Scanner \<Rightarrow> Scanner \<Rightarrow> bool" for s0 :: Scanner where
  entry: "in_cycle s0 s0"
| advanced: "in_cycle s0 (snd (advance s0))"
| matched_eq:
    "fst (advance s0) \<in> set ''<>=!'' \<Longrightarrow>
     in_cycle s0 (snd (match CHR ''='' (snd (advance s0))))"
| matched_slash:
    "fst (advance s0) = CHR ''/'' \<Longrightarrow>
     in_cycle s0 (snd (match CHR ''/'' (snd (advance s0))))"
| comment:
    "fst (advance s0) = CHR ''/'' \<Longrightarrow> match CHR ''/'' (snd (advance s0)) = (True, s1) \<Longrightarrow>
     iterates comment_cond step s1 s \<Longrightarrow> in_cycle s0 s"
| string:
    "fst (advance s0) = CHR 0x22 \<Longrightarrow>
     iterates string_cond string_body (snd (advance s0)) s \<Longrightarrow> in_cycle s0 s"
| string_err:
    "fst (advance s0) = CHR 0x22 \<Longrightarrow>
     iterates string_cond string_body (snd (advance s0)) s \<Longrightarrow>
     string_cond s \<Longrightarrow> peek s = CHR 0x0A \<Longrightarrow>
     in_cycle s0 (err ''unterminated string'' s)"
| string_closed:
    "fst (advance s0) = CHR 0x22 \<Longrightarrow> \<not> end (string_loop (snd (advance s0))) \<Longrightarrow>
     in_cycle s0 (snd (advance (string_loop (snd (advance s0)))))"
| newline:
    "fst (advance s0) = CHR 0x0A \<Longrightarrow>
     in_cycle s0 ((snd (advance s0))\<lparr>line := line (snd (advance s0)) + 1\<rparr>)"
| digits:
    "isDigit (fst (advance s0)) \<Longrightarrow>
     iterates digit_cond step (snd (advance s0)) s \<Longrightarrow> in_cycle s0 s"
| fraction:
    "isDigit (fst (advance s0)) \<Longrightarrow> s1 = digit_loop (snd (advance s0)) \<Longrightarrow>
     peek s1 = CHR ''.'' \<and> isDigit (peekNext s1) \<Longrightarrow>
     iterates digit_cond step (snd (advance s1)) s \<Longrightarrow> in_cycle s0 s"
| letters:
    "\<not> isDigit (fst (advance s0)) \<and> isAlpha (fst (advance s0)) \<Longrightarrow>
     iterates identifier_cond step (snd (advance s0)) s \<Longrightarrow> in_cycle s0 s"
| result: "scanToken s0 = Some s' \<Longrightarrow> in_cycle s0 s'"

inductive during :: "string \<Rightarrow> Scanner \<Rightarrow> bool" for src :: string where
  head: "loop_head src s \<Longrightarrow> during src s"
| cycle: "loop_head src s \<Longrightarrow> \<not> end s \<Longrightarrow> in_cycle (s\<lparr>start := current s\<rparr>) p \<Longrightarrow>
          during src p"
| final: "loop_head src s \<Longrightarrow> end s \<Longrightarrow>
          during src (addToken \<lparr>Type = EOF, Line = line s, Text = []\<rparr> s)"

lemma iterates_first:
  assumes "iterates cond body (body s0) s" and "cond s0"
  shows "iterates cond body s0 s"
  using assms(1)
proof (induction rule: iterates.induct)
  case entry
  from iterates.entry assms(2) show ?case by (rule iterates.again)
next
  case (again s)
  from again.IH again.hyps(2) show ?case by (rule iterates.again)
qed

lemma comment_loop_iterates:
  "iterates comment_cond step s (comment_loop s) \<and> \<not> comment_cond (comment_loop s)"
proof (induction s rule: comment_loop.induct)
  case (1 s)
  show ?case
  proof (cases "peek s \<noteq> CHR 0x0A \<and> \<not> end s")
    case True
    then have e: "comment_loop s = comment_loop (step s)"
      by (subst comment_loop.simps) (simp add: step_def)
    from True have c: "comment_cond s" by (simp add: comment_cond_def)
    have st: "snd (advance s) = step s"
      by (simp add: step_def)
    from 1[OF True] have it: "iterates comment_cond step (step s) (comment_loop (step s))"
      and nc: "\<not> comment_cond (comment_loop (step s))" unfolding st by simp_all
    from iterates_first[OF it c] nc show ?thesis unfolding e by simp
  next
    case False
    then have "comment_loop s = s" by (subst comment_loop.simps) auto
    with False show ?thesis by (simp add: comment_cond_def iterates.entry)
  qed
qed

lemma identifier_loop_iterates:
  "iterates identifier_cond step s (identifier_loop s) \<and> \<not> identifier_cond (identifier_loop s)"
proof (induction s rule: identifier_loop.induct)
  case (1 s)
  show ?case
  proof (cases "isAlphaNumeric (peek s)")
    case True
    then have e: "identifier_loop s = identifier_loop (step s)"
      by (subst identifier_loop.simps) (simp add: step_def)
    from True have c: "identifier_cond s" by (simp add: identifier_cond_def)
    have st: "snd (advance s) = step s"
      by (simp add: step_def)
    from 1[OF True] have it: "iterates identifier_cond step (step s) (identifier_loop (step s))"
      and nc: "\<not> identifier_cond (identifier_loop (step s))" unfolding st by simp_all
    from iterates_first[OF it c] nc show ?thesis unfolding e by simp
  next
    case False
    then have "identifier_loop s = s" by (subst identifier_loop.simps) auto
    with False show ?thesis by (simp add: identifier_cond_def iterates.entry)
  qed
qed

lemma digit_loop_iterates:
  "iterates digit_cond step s (digit_loop s) \<and> \<not> digit_cond (digit_loop s)"
proof (induction s rule: digit_loop.induct)
  case (1 s)
  show ?case
  proof (cases "isDigit (peek s)")
    case True
    then have e: "digit_loop s = digit_loop (step s)"
      by (subst digit_loop.simps) (simp add: step_def)
    from True have c: "digit_cond s" by (simp add: digit_cond_def)
    have st: "snd (advance s) = step s"
      by (simp add: step_def)
    from 1[OF True] have it: "iterates digit_cond step (step s) (digit_loop (step s))"
      and nc: "\<not> digit_cond (digit_loop (step s))" unfolding st by simp_all
    from iterates_first[OF it c] nc show ?thesis unfolding e by simp
  next
    case False
    then have "digit_loop s = s" by (subst digit_loop.simps) auto
    with False show ?thesis by (simp add: digit_cond_def iterates.entry)
  qed
qed

lemma string_loop_iterates:
  "iterates string_cond string_body s (string_loop s) \<and> \<not> string_cond (string_loop s)"
proof (induction s rule: string_loop.induct)
  case (1 s)
  show ?case
  proof (cases "peek s \<noteq> CHR 0x22 \<and> \<not> end s")
    case True
    then have e: "string_loop s = string_loop (string_body s)"
      by (subst string_loop.simps) (simp add: string_body_def)
    from True have c: "string_cond s" by (simp add: string_cond_def)
    have st: "snd (advance (if peek s = CHR 0x0A then err ''unterminated string'' s else s)) = string_body s"
      by (simp add: string_body_def)
    from 1[OF True] have it: "iterates string_cond string_body (string_body s) (string_loop (string_body s))"
      and nc: "\<not> string_cond (string_loop (string_body s))" unfolding st by simp_all
    from iterates_first[OF it c] nc show ?thesis unfolding e by simp
  next
    case False
    then have "string_loop s = s" by (subst string_loop.simps) auto
    with False show ?thesis by (simp add: string_cond_def iterates.entry)
  qed
qed

text \<open>
  \<open>keeps s s'\<close>: from \<open>s\<close> to \<open>s'\<close> the state changes as \<open>ext\<close> says and \<open>start\<close> is
  the same.
\<close>

definition keeps :: "Scanner \<Rightarrow> Scanner \<Rightarrow> bool" where
  "keeps s s' = (ext s s' \<and> start s' = start s)"

lemma keeps_refl [simp]: "keeps s s"
  by (simp add: keeps_def)

lemma keeps_trans: "keeps s s1 \<Longrightarrow> keeps s1 s2 \<Longrightarrow> keeps s s2"
  unfolding keeps_def using ext_trans by auto

lemma keeps_advance: "\<not> end s \<Longrightarrow> keeps s (snd (advance s))"
  by (simp add: keeps_def ext_advance)

lemma keeps_match: "keeps s (snd (match c s))"
  by (simp add: keeps_def ext_match)

lemma keeps_err: "keeps s (err m s)"
  unfolding keeps_def by (rule conjI, rule ext_err, simp add: err_def)

lemma iterates_keeps:
  assumes "iterates cond body s0 s" and "\<And>s. cond s \<Longrightarrow> keeps s (body s)"
  shows "keeps s0 s"
  using assms(1)
proof (induction rule: iterates.induct)
  case entry
  show ?case by simp
next
  case (again s)
  from again.IH assms(2)[OF again.hyps(2)] show ?case by (rule keeps_trans)
qed

lemma keeps_comment: "iterates comment_cond step s0 s \<Longrightarrow> keeps s0 s"
  by (erule iterates_keeps) (simp add: comment_cond_def step_def keeps_advance)

lemma keeps_digits: "iterates digit_cond step s0 s \<Longrightarrow> keeps s0 s"
  by (erule iterates_keeps)
     (simp add: digit_cond_def step_def keeps_advance isDigit_peek_not_end)

lemma keeps_letters: "iterates identifier_cond step s0 s \<Longrightarrow> keeps s0 s"
  by (erule iterates_keeps)
     (simp add: identifier_cond_def step_def keeps_advance isAlphaNumeric_peek_not_end)

lemma keeps_string_body: "string_cond s \<Longrightarrow> keeps s (string_body s)"
proof -
  assume c: "string_cond s"
  let ?s1 = "if peek s = CHR 0x0A then err ''unterminated string'' s else s"
  have "keeps s ?s1" by (simp add: keeps_err)
  moreover have "keeps ?s1 (snd (advance ?s1))"
    using c by (intro keeps_advance) (simp add: string_cond_def)
  ultimately show ?thesis unfolding string_body_def by (rule keeps_trans)
qed

lemma keeps_string: "iterates string_cond string_body s0 s \<Longrightarrow> keeps s0 s"
  by (erule iterates_keeps) (rule keeps_string_body)

lemma keeps_string_loop: "keeps s (string_loop s)"
  by (simp add: keeps_def ext_string_loop)

lemma keeps_digit_loop: "keeps s (digit_loop s)"
  by (simp add: keeps_def ext_digit_loop)

lemma keeps_scanToken: "\<not> end s \<Longrightarrow> scanToken s = Some s' \<Longrightarrow> keeps s s'"
  using ext_trans[OF ext_advance ext_scanToken_aux] start_scanToken
  by (simp add: keeps_def)

lemma in_cycle_keeps:
  assumes "in_cycle s0 p" and ne: "\<not> end s0"
  shows "keeps s0 p"
  using assms(1)
proof (cases rule: in_cycle.cases)
  case entry
  then show ?thesis by simp
next
  case advanced
  with ne show ?thesis by (simp add: keeps_advance)
next
  case matched_eq
  with keeps_trans[OF keeps_advance[OF ne] keeps_match] show ?thesis by simp
next
  case matched_slash
  with keeps_trans[OF keeps_advance[OF ne] keeps_match] show ?thesis by simp
next
  case (comment s1)
  from comment(2) have "s1 = snd (match CHR ''/'' (snd (advance s0)))" by simp
  with keeps_trans[OF keeps_advance[OF ne] keeps_match]
  have "keeps s0 s1" by simp
  then show ?thesis using keeps_comment[OF comment(3)] by (rule keeps_trans)
next
  case string
  from keeps_advance[OF ne] keeps_string[OF string(2)] show ?thesis by (rule keeps_trans)
next
  case (string_err s)
  from keeps_advance[OF ne] keeps_string[OF string_err(3)]
  have "keeps s0 s" by (rule keeps_trans)
  then have "keeps s0 (err ''unterminated string'' s)" using keeps_err by (rule keeps_trans)
  with string_err(1) show ?thesis by simp
next
  case string_closed
  from keeps_advance[OF ne] keeps_string_loop
  have "keeps s0 (string_loop (snd (advance s0)))" by (rule keeps_trans)
  then have "keeps s0 (snd (advance (string_loop (snd (advance s0)))))"
    using keeps_advance[OF string_closed(3)] by (rule keeps_trans)
  with string_closed(1) show ?thesis by simp
next
  case newline
  have "keeps (snd (advance s0)) ((snd (advance s0))\<lparr>line := line (snd (advance s0)) + 1\<rparr>)"
    by (simp add: keeps_def ext_def in_bounds_def)
  with keeps_advance[OF ne] newline(1) show ?thesis by (auto intro: keeps_trans[of s0 "snd (advance s0)"])
next
  case digits
  from keeps_advance[OF ne] keeps_digits[OF digits(2)] show ?thesis by (rule keeps_trans)
next
  case (fraction s1)
  from keeps_advance[OF ne] keeps_digit_loop
  have "keeps s0 s1" unfolding fraction(2) by (rule keeps_trans)
  moreover have "keeps s1 (snd (advance s1))"
    using fraction(3) peek_not_end[of s1 "CHR ''.''"] by (intro keeps_advance) simp
  ultimately have "keeps s0 (snd (advance s1))" by (rule keeps_trans)
  then show ?thesis using keeps_digits[OF fraction(4)] by (rule keeps_trans)
next
  case letters
  from keeps_advance[OF ne] keeps_letters[OF letters(2)] show ?thesis by (rule keeps_trans)
next
  case result
  from keeps_scanToken[OF ne result] show ?thesis .
qed

lemma during_in_bounds:
  assumes "during src s"
  shows "source s = src \<and> in_bounds s"
  using assms
proof (cases rule: during.cases)
  case head
  then show ?thesis by (rule loop_head_in_bounds)
next
  case (cycle s1)
  let ?s0 = "s1\<lparr>start := current s1\<rparr>"
  from loop_head_in_bounds[OF cycle(1)] have b: "source ?s0 = src" "in_bounds ?s0"
    by (auto simp: in_bounds_def)
  from cycle(2) have "\<not> end ?s0" by (simp add: end_def)
  from in_cycle_keeps[OF cycle(3) this] b show ?thesis
    by (simp add: keeps_def ext_def)
next
  case (final s1)
  with loop_head_in_bounds[OF final(2)] show ?thesis
    by (auto simp: addToken_def in_bounds_def)
qed

section \<open>The properties stated by the specification\<close>

subsection \<open>The helper \<open>advance\<close> and the last byte of the source\<close>

text \<open>
  C1. \<open>advance\<close> is to consume the next unread byte and to return it, to return the zero
  sentinel only at end-of-input, and not to move the cursor past the end. The code
  increments the cursor before it tests for the end: on the source \<open>a\<close>, with its one
  byte unread, it returns the sentinel instead of the byte, and on the empty source it
  leaves the cursor at 1, beyond the end.
\<close>

theorem advance_last_byte:
  "advance (NewScanner ''a'') = (CHR 0x00, (NewScanner ''a'')\<lparr>current := 1\<rparr>) \<and>
   \<not> end (NewScanner ''a'') \<and>
   current (snd (advance (NewScanner ''''))) = 1 \<and> length (source (NewScanner '''')) = 0"
  by (simp add: advance_def NewScanner_def end_def)

subsection \<open>Scenarios\<close>

text \<open>
  C2. The input \<open>a >= 5\<close> is to give \<open>Identifier a\<close>, \<open>GreaterEquals >=\<close>, \<open>Number 5\<close>,
  \<open>EOF\<close> and no diagnostic. The code gives no token for the final \<open>5\<close>: the dispatch
  reads the last byte as the zero sentinel.
\<close>

theorem scan_a_ge_5:
  "scan ''a >= 5'' =
     Some ([\<lparr>Type = Identifier, Line = 1, Text = ''a''\<rparr>,
            \<lparr>Type = GreaterEquals, Line = 1, Text = ''>=''\<rparr>,
            \<lparr>Type = EOF, Line = 1, Text = ''''\<rparr>], [])"
  by code_simp

text \<open>
  C3. The input \<open>3.\<close> is to give \<open>Number 3\<close>, \<open>Dot .\<close>, \<open>EOF\<close>: the dot is left by
  the number and scanned in the next cycle. The code leaves it, and the next cycle
  reads it, the last byte, as the zero sentinel: there is no \<open>Dot\<close> token.
\<close>

theorem scan_3_dot:
  "scan ''3.'' =
     Some ([\<lparr>Type = Number, Line = 1, Text = ''3''\<rparr>,
            \<lparr>Type = EOF, Line = 1, Text = ''''\<rparr>], [])"
  by code_simp

subsection \<open>The line counter\<close>

text \<open>
  C4. The line counter is to go up by one for every newline consumed, whichever part
  of the scanner consumes it. The main dispatch increments it; the loop of
  \<open>stringLiteral\<close> consumes a newline and leaves the counter as it is. On the five
  bytes quote, newline, quote, \<open>a\<close>, space the scan consumes everything, one newline
  included, and ends with the counter at 1: the identifier after the string and the
  final token are placed on line 1.
\<close>

theorem line_not_counted_in_string:
  "scan [CHR 0x22, CHR 0x0A, CHR 0x22, CHR ''a'', CHR '' ''] =
     Some ([\<lparr>Type = String, Line = 1, Text = [CHR 0x0A]\<rparr>,
            \<lparr>Type = Identifier, Line = 1, Text = ''a''\<rparr>,
            \<lparr>Type = EOF, Line = 1, Text = ''''\<rparr>],
           [''unterminated string on line 1'']) \<and>
   map_option (\<lambda>s. (current s, line s))
     (scan_loop (NewScanner [CHR 0x22, CHR 0x0A, CHR 0x22, CHR ''a'', CHR '' ''])) = Some (5, 1)"
  by code_simp

subsection \<open>The line of a token\<close>




subsection \<open>An unexpected character\<close>

text \<open>
  C6. A byte that matches no dispatch rule and is not zero is to give the diagnostic
  \<open>Unexpected character '<c>' on line <line>\<close> wherever it stands in the source. The
  code records it for a \<open>$\<close> that another byte follows, and records nothing for a \<open>$\<close>
  that is the last byte of the source: the dispatch reads the last byte as the zero
  sentinel. At every position but the last the cycle does what is claimed
  (\<open>unexpected_character_cycle\<close>).
\<close>

theorem unexpected_last_byte:
  "scan ''$'' = Some ([\<lparr>Type = EOF, Line = 1, Text = ''''\<rparr>], []) \<and>
   scan ''$ '' = Some ([\<lparr>Type = EOF, Line = 1, Text = ''''\<rparr>],
                       [''Unexpected character '$' on line 1''])"
  by code_simp

subsection \<open>Termination and the final token\<close>

text \<open>
  C7. For every input \<open>scan\<close> terminates: \<open>scan_loop\<close> is a total function, by the
  measure \<open>length (source s) - current s\<close>, which every dispatch cycle decreases
  (\<open>scanToken_progress\<close>), and it returns a result, no cycle panics. The token sequence
  returned is not empty, its last token is \<open>EOF\<close>, and no token before the last is \<open>EOF\<close>.
\<close>

theorem scan_ends_with_EOF:
  "\<exists>toks errs. scan src = Some (toks, errs) \<and> toks \<noteq> [] \<and> Type (last toks) = EOF \<and>
     (\<forall>t \<in> set (butlast toks). Type t \<noteq> EOF)"
proof -
  from scan_loop_ext[OF in_bounds_NewScanner, of src] obtain s' where
    s': "scan_loop (NewScanner src) = Some s'" "ext (NewScanner src) s'" by blast
  from s'(2) have "\<forall>t \<in> set (tokens s'). Type t \<noteq> EOF"
    by (auto simp: ext_def NewScanner_def)
  with s'(1) show ?thesis
    by (simp add: scan_def Scan_def Let_def addToken_def)
qed

theorem scan_ends_with_EOF_witness:
  "scan ''(a) '' =
     Some ([\<lparr>Type = LeftParen, Line = 1, Text = ''(''\<rparr>,
            \<lparr>Type = Identifier, Line = 1, Text = ''a''\<rparr>,
            \<lparr>Type = RightParen, Line = 1, Text = '')''\<rparr>,
            \<lparr>Type = EOF, Line = 1, Text = ''''\<rparr>], []) \<and>
   Type \<lparr>Type = EOF, Line = 1, Text = ''''\<rparr> = EOF \<and>
   Type \<lparr>Type = LeftParen, Line = 1, Text = ''(''\<rparr> \<noteq> EOF \<and>
   Type \<lparr>Type = Identifier, Line = 1, Text = ''a''\<rparr> \<noteq> EOF \<and>
   Type \<lparr>Type = RightParen, Line = 1, Text = '')''\<rparr> \<noteq> EOF"
proof -
  have h: "scan ''(a) '' =
     Some ([\<lparr>Type = LeftParen, Line = 1, Text = ''(''\<rparr>,
            \<lparr>Type = Identifier, Line = 1, Text = ''a''\<rparr>,
            \<lparr>Type = RightParen, Line = 1, Text = '')''\<rparr>,
            \<lparr>Type = EOF, Line = 1, Text = ''''\<rparr>], [])"
    by code_simp
  show ?thesis using scan_ends_with_EOF[of "''(a) ''"] h by simp
qed

subsection \<open>String literals with newlines\<close>

text \<open>
  C8. \<open>stringLiteral\<close> runs after the opening quote is consumed. The bytes from there
  up to the next quote, or up to the end of the source when no quote follows, are the
  body. For every newline of the body it records one diagnostic
  \<open>unterminated string on line <line>\<close> and goes on through the body. When the closing
  quote is there it consumes it and emits one \<open>String\<close> token whose text is the body,
  byte for byte (a backslash is a byte as any other). When the source ends first it
  records the diagnostic once more and emits no token.
\<close>

theorem stringLiteral_newlines:
  assumes "source s = pre @ [CHR 0x22] @ body @ rest"
    and "CHR 0x22 \<notin> set body" and "rest = [] \<or> hd rest = CHR 0x22"
    and "start s = length pre" and "current s = Suc (length pre)"
  shows "stringLiteral s =
           Some (if rest = []
                 then s\<lparr>current := length (source s),
                        errors := errors s @
                          replicate (Suc (count_list body (CHR 0x0A)))
                            (''unterminated string on line '' @ itoa (line s))\<rparr>
                 else s\<lparr>tokens := tokens s @ [\<lparr>Type = String, Line = line s, Text = body\<rparr>],
                        current := length pre + length body + 2,
                        errors := errors s @
                          replicate (count_list body (CHR 0x0A))
                            (''unterminated string on line '' @ itoa (line s))\<rparr>)"
proof -
  let ?s1 = "string_loop s"
  let ?msg = "''unterminated string on line '' @ itoa (line s)"
  have l: "?s1 =
     s\<lparr>current := length (pre @ [CHR 0x22]) + length body,
       errors := errors s @ replicate (count_list body (CHR 0x0A)) ?msg\<rparr>"
    using assms by (intro string_loop_body[where rest = rest]) simp_all
  show ?thesis
  proof (cases "rest = []")
    case True
    then have "end ?s1" using assms(1) by (subst l) (simp add: end_def)
    then have "stringLiteral s = Some (err ''unterminated string'' ?s1)"
      by (simp add: stringLiteral_def Let_def)
    also have "err ''unterminated string'' ?s1 =
        s\<lparr>current := length (source s),
          errors := errors s @ replicate (Suc (count_list body (CHR 0x0A))) ?msg\<rparr>"
      using True assms(1) by (subst l) (simp add: err_def replicate_append_same)
    finally show ?thesis using True by simp
  next
    case False
    with assms(3) obtain rs where rest: "rest = CHR 0x22 # rs" by (cases rest) auto
    have ne: "\<not> end ?s1"
      using assms(1) rest by (subst l) (simp add: end_def)
    have sl: "slice (source s) (Suc (length pre)) (Suc (length pre) + length body) = Some body"
      using assms(1) by (simp add: slice_def)
    show ?thesis
      unfolding stringLiteral_def Let_def
      using ne sl assms(4) False
      by (simp add: l advance_def Let_def end_def addToken_def newToken_def)
  qed
qed

theorem stringLiteral_newlines_witness:
  "CHR 0x22 \<notin> set [CHR ''a'', CHR 0x0A, CHR 0x5C, CHR 0x0A] \<and>
   hd [CHR 0x22, CHR '' ''] = CHR 0x22 \<and>
   stringLiteral
     \<lparr>tokens = [], source = [CHR 0x22, CHR ''a'', CHR 0x0A, CHR 0x5C, CHR 0x0A, CHR 0x22, CHR '' ''],
      start = 0, current = 1, line = 1, errors = []\<rparr> =
   Some \<lparr>tokens = [\<lparr>Type = String, Line = 1, Text = [CHR ''a'', CHR 0x0A, CHR 0x5C, CHR 0x0A]\<rparr>],
         source = [CHR 0x22, CHR ''a'', CHR 0x0A, CHR 0x5C, CHR 0x0A, CHR 0x22, CHR '' ''],
         start = 0, current = 6, line = 1,
         errors = [''unterminated string on line 1'', ''unterminated string on line 1'']\<rparr> \<and>
   stringLiteral
     \<lparr>tokens = [], source = [CHR 0x22, CHR ''a'', CHR 0x0A, CHR 0x5C, CHR 0x0A],
      start = 0, current = 1, line = 1, errors = []\<rparr> =
   Some \<lparr>tokens = [],
         source = [CHR 0x22, CHR ''a'', CHR 0x0A, CHR 0x5C, CHR 0x0A],
         start = 0, current = 5, line = 1,
         errors = [''unterminated string on line 1'', ''unterminated string on line 1'',
                   ''unterminated string on line 1'']\<rparr>"
proof -
  have i: "itoa 1 = ''1''" by code_simp
  show ?thesis
    using stringLiteral_newlines[of
        "\<lparr>tokens = [], source = [CHR 0x22, CHR ''a'', CHR 0x0A, CHR 0x5C, CHR 0x0A, CHR 0x22, CHR '' ''],
          start = 0, current = 1, line = 1, errors = []\<rparr>"
        "[]" "[CHR ''a'', CHR 0x0A, CHR 0x5C, CHR 0x0A]" "[CHR 0x22, CHR '' '']"]
      stringLiteral_newlines[of
        "\<lparr>tokens = [], source = [CHR 0x22, CHR ''a'', CHR 0x0A, CHR 0x5C, CHR 0x0A],
          start = 0, current = 1, line = 1, errors = []\<rparr>"
        "[]" "[CHR ''a'', CHR 0x0A, CHR 0x5C, CHR 0x0A]" "[]"] i
    by (simp add: numeral_2_eq_2 numeral_3_eq_3 numeral_eq_Suc)
qed

subsection \<open>The cursor stays inside the source\<close>

text \<open>
  C9. At every point of the scan of \<open>src\<close> (at the head of the main loop, after any
  operation of a dispatch cycle, after the final token) the state has
  \<open>start \<le> current \<le> length src\<close>. At every such point the byte read of \<open>advance\<close>,
  \<open>peek\<close>, \<open>peekNext\<close> and \<open>match\<close> is in range, and so is the slice of \<open>lexeme\<close>: none
  panics. At the head of the loop, if input is left, the dispatch cycle that follows
  does not panic either, it leaves \<open>start\<close> at the cursor of the loop head and moves
  the cursor forward.
\<close>

theorem cursor_in_bounds:
  assumes "during src s"
  shows "source s = src \<and> start s \<le> current s \<and> current s \<le> length src \<and>
         advance_checked s = Some (advance s) \<and> peek_checked s = Some (peek s) \<and>
         peekNext_checked s = Some (peekNext s) \<and> match_checked c s = Some (match c s) \<and>
         (\<exists>text. lexeme s = Some text) \<and>
         (loop_head src s \<and> \<not> end s \<longrightarrow>
            (\<exists>s'. scanToken (s\<lparr>start := current s\<rparr>) = Some s' \<and> source s' = src \<and>
                  start s' = current s \<and> current s < current s' \<and>
                  current s' \<le> length src))"
proof -
  from during_in_bounds[OF assms] have b: "source s = src" "in_bounds s" by simp_all
  have "\<exists>s'. scanToken (s\<lparr>start := current s\<rparr>) = Some s' \<and> source s' = src \<and>
             start s' = current s \<and> current s < current s' \<and> current s' \<le> length src"
    if lh: "loop_head src s" and ne: "\<not> end s"
  proof -
    let ?s0 = "s\<lparr>start := current s\<rparr>"
    have b0: "in_bounds ?s0" using b(2) by (simp add: in_bounds_def)
    have "\<not> end ?s0" using ne by (simp add: end_def)
    from scanToken_total[OF b0 this] obtain s' where s': "scanToken ?s0 = Some s'" ..
    have "loop_head src s'" using lh ne s' by (rule loop_head.cycle)
    from loop_head_in_bounds[OF this] have "source s' = src" "current s' \<le> length src"
      by (auto simp: in_bounds_def)
    moreover have "start s' = current s" using start_scanToken[OF s'] by simp
    moreover have "current s < current s'" using scanToken_progress(2)[OF s'] by simp
    ultimately show ?thesis using s' by simp
  qed
  with b lexeme_in_bounds[OF b(2)] show ?thesis
    by (simp add: in_bounds_def advance_checked_eq peek_checked_eq peekNext_checked_eq
          match_checked_eq)
qed

theorem cursor_in_bounds_witness:
  "during ''ab c''
     \<lparr>tokens = [], source = ''ab c'', start = 0, current = 2, line = 1, errors = []\<rparr> \<and>
   (0::nat) \<le> 2 \<and> (2::nat) \<le> length ''ab c'' \<and>
   advance_checked
     \<lparr>tokens = [], source = ''ab c'', start = 0, current = 2, line = 1, errors = []\<rparr> =
     Some (CHR '' '',
           \<lparr>tokens = [], source = ''ab c'', start = 0, current = 3, line = 1, errors = []\<rparr>) \<and>
   peek_checked
     \<lparr>tokens = [], source = ''ab c'', start = 0, current = 2, line = 1, errors = []\<rparr> =
     Some (CHR '' '') \<and>
   peekNext_checked
     \<lparr>tokens = [], source = ''ab c'', start = 0, current = 2, line = 1, errors = []\<rparr> =
     Some (CHR ''c'') \<and>
   match_checked (CHR ''='')
     \<lparr>tokens = [], source = ''ab c'', start = 0, current = 2, line = 1, errors = []\<rparr> =
     Some (False,
           \<lparr>tokens = [], source = ''ab c'', start = 0, current = 2, line = 1, errors = []\<rparr>) \<and>
   lexeme \<lparr>tokens = [], source = ''ab c'', start = 0, current = 2, line = 1, errors = []\<rparr> =
     Some ''ab'' \<and>
   loop_head ''ab c''
     \<lparr>tokens = [\<lparr>Type = Identifier, Line = 1, Text = ''ab''\<rparr>], source = ''ab c'',
      start = 0, current = 2, line = 1, errors = []\<rparr> \<and>
   \<not> end \<lparr>tokens = [\<lparr>Type = Identifier, Line = 1, Text = ''ab''\<rparr>], source = ''ab c'',
      start = 0, current = 2, line = 1, errors = []\<rparr> \<and>
   scanToken
     \<lparr>tokens = [\<lparr>Type = Identifier, Line = 1, Text = ''ab''\<rparr>], source = ''ab c'',
      start = 2, current = 2, line = 1, errors = []\<rparr> =
   Some \<lparr>tokens = [\<lparr>Type = Identifier, Line = 1, Text = ''ab''\<rparr>], source = ''ab c'',
      start = 2, current = 3, line = 1, errors = []\<rparr> \<and>
   (2::nat) < 3 \<and> (3::nat) \<le> length ''ab c''"
proof -
  let ?s0 = "(NewScanner ''ab c'')\<lparr>start := current (NewScanner ''ab c'')\<rparr>"
  let ?p = "\<lparr>tokens = [], source = ''ab c'', start = 0, current = 2, line = 1, errors = []\<rparr>"
  let ?h = "\<lparr>tokens = [\<lparr>Type = Identifier, Line = 1, Text = ''ab''\<rparr>], source = ''ab c'',
      start = 0, current = 2, line = 1, errors = []\<rparr>"
  have e0: "\<not> end (NewScanner ''ab c'')"
    by (simp add: end_def NewScanner_def)
  have a: "\<not> isDigit (fst (advance ?s0)) \<and> isAlpha (fst (advance ?s0))"
    by code_simp
  have cd: "identifier_cond (snd (advance ?s0))"
    by code_simp
  have st: "step (snd (advance ?s0)) = ?p"
    by code_simp
  have "iterates identifier_cond step (snd (advance ?s0)) (step (snd (advance ?s0)))"
    using iterates.entry cd by (rule iterates.again)
  then have "iterates identifier_cond step (snd (advance ?s0)) ?p"
    by (simp only: st)
  with a have "in_cycle ?s0 ?p" by (rule in_cycle.letters)
  with loop_head.init e0 have dp: "during ''ab c'' ?p" by (rule during.cycle)
  have c0: "scanToken ?s0 = Some ?h" by code_simp
  have lh: "loop_head ''ab c'' ?h"
    using loop_head.init e0 c0 by (rule loop_head.cycle)
  then have dh: "during ''ab c'' ?h" by (rule during.head)
  have e1: "\<not> end ?h" by (simp add: end_def)
  have r: "advance_checked ?p =
     Some (CHR '' '',
           \<lparr>tokens = [], source = ''ab c'', start = 0, current = 3, line = 1, errors = []\<rparr>)"
    "peek_checked ?p = Some (CHR '' '')" "peekNext_checked ?p = Some (CHR ''c'')"
    "match_checked (CHR ''='') ?p = Some (False, ?p)" "lexeme ?p = Some ''ab''"
    by code_simp+
  have c1: "scanToken
     \<lparr>tokens = [\<lparr>Type = Identifier, Line = 1, Text = ''ab''\<rparr>], source = ''ab c'',
      start = 2, current = 2, line = 1, errors = []\<rparr> =
   Some \<lparr>tokens = [\<lparr>Type = Identifier, Line = 1, Text = ''ab''\<rparr>], source = ''ab c'',
      start = 2, current = 3, line = 1, errors = []\<rparr>"
    by code_simp
  show ?thesis
    using cursor_in_bounds[OF dp] cursor_in_bounds[OF dh] dp lh e1 r c1 by simp
qed


subsection \<open>A zero byte in the source\<close>

text \<open>
  C10, as stated: a byte \<open>0x00\<close> anywhere in the input is consumed with no token and no
  diagnostic for it, and cannot be told from the end of the input. It fails on the
  four bytes quote, \<open>0x00\<close>, quote, space: the loop of \<open>stringLiteral\<close> tests \<open>end()\<close> as
  well as the byte that \<open>peek\<close> returns, so it goes on over the zero byte, and the
  \<open>String\<close> token that is emitted has the zero byte as its text.
\<close>

theorem NUL_in_string_literal:
  "scan [CHR 0x22, CHR 0x00, CHR 0x22, CHR '' ''] =
     Some ([\<lparr>Type = String, Line = 1, Text = [CHR 0x00]\<rparr>,
            \<lparr>Type = EOF, Line = 1, Text = ''''\<rparr>], []) \<and>
   scan [CHR 0x22, CHR 0x22, CHR '' ''] =
     Some ([\<lparr>Type = String, Line = 1, Text = ''''\<rparr>,
            \<lparr>Type = EOF, Line = 1, Text = ''''\<rparr>], [])"
  by code_simp

text \<open>
  C10, amended: the scanner consumes a byte \<open>0x00\<close> of the source in three places. When
  the dispatch reads it, the cycle emits no token and records no diagnostic: the
  state it leaves differs from the state before only in \<open>start\<close> and in the cursor,
  which is on the following byte, and the scan goes on from there. The loop of a line
  comment steps over it in the same silence. The loop of a string literal steps over it
  with no diagnostic and goes on: there the byte is part of the body of the literal
  (and so of the text of the token, C8). Wherever the zero bytes of the source are, no
  diagnostic of the scan reports a zero byte as an unexpected character.
\<close>

theorem NUL_byte_silent:
  assumes "current s < length (source s)" and "source s ! current s = CHR 0x00"
  shows "scanToken (s\<lparr>start := current s\<rparr>) =
           Some (s\<lparr>start := current s, current := Suc (current s)\<rparr>) \<and>
         scan_loop s = scan_loop (s\<lparr>start := current s, current := Suc (current s)\<rparr>) \<and>
         comment_loop s = comment_loop (s\<lparr>current := Suc (current s)\<rparr>) \<and>
         string_loop s = string_loop (s\<lparr>current := Suc (current s)\<rparr>) \<and>
         (\<forall>toks errs l. scan (source s) = Some (toks, errs) \<longrightarrow>
            ''Unexpected character '' @ [CHR 0x27, CHR 0x00, CHR 0x27] @ '' on line '' @ itoa l
              \<notin> set errs)"
proof -
  have "scanToken (s\<lparr>start := current s\<rparr>) =
           Some (s\<lparr>start := current s, current := Suc (current s)\<rparr>)"
    using assms advance_NUL[of "s\<lparr>start := current s\<rparr>"]
    by (simp add: scanToken_def)
  moreover from assms(1) have ne: "\<not> end s" by (simp add: end_def)
  ultimately have "scanToken (s\<lparr>start := current s\<rparr>) =
           Some (s\<lparr>start := current s, current := Suc (current s)\<rparr>) \<and>
         scan_loop s = scan_loop (s\<lparr>start := current s, current := Suc (current s)\<rparr>)"
    by (subst scan_loop.simps) simp
  moreover from assms ne have pk: "peek s = CHR 0x00" by (simp add: peek_def)
  have a: "snd (advance s) = s\<lparr>current := Suc (current s)\<rparr>"
    by (simp add: advance_def Let_def)
  have "comment_loop s = comment_loop (s\<lparr>current := Suc (current s)\<rparr>)"
    using pk ne a by (subst comment_loop.simps) simp
  moreover have "string_loop s = string_loop (s\<lparr>current := Suc (current s)\<rparr>)"
    using pk ne a by (subst string_loop.simps) simp
  moreover have "''Unexpected character '' @ [CHR 0x27, CHR 0x00, CHR 0x27] @ '' on line '' @ itoa l
              \<notin> set errs" if "scan (source s) = Some (toks, errs)" for toks errs l
    using scan_diagnostics[OF that] diagnostic_not_NUL by blast
  ultimately show ?thesis by blast
qed

theorem NUL_byte_silent_witness:
  "current (NewScanner [CHR 0x00, CHR ''a'', CHR '' '']) <
     length (source (NewScanner [CHR 0x00, CHR ''a'', CHR '' ''])) \<and>
   source (NewScanner [CHR 0x00, CHR ''a'', CHR '' '']) !
     current (NewScanner [CHR 0x00, CHR ''a'', CHR '' '']) = CHR 0x00 \<and>
   scanToken (NewScanner [CHR 0x00, CHR ''a'', CHR '' '']) =
     Some \<lparr>tokens = [], source = [CHR 0x00, CHR ''a'', CHR '' ''], start = 0, current = 1,
           line = 1, errors = []\<rparr> \<and>
   scan_loop (NewScanner [CHR 0x00, CHR ''a'', CHR '' '']) =
     scan_loop \<lparr>tokens = [], source = [CHR 0x00, CHR ''a'', CHR '' ''], start = 0, current = 1,
           line = 1, errors = []\<rparr> \<and>
   scan [CHR 0x00, CHR ''a'', CHR '' ''] =
     Some ([\<lparr>Type = Identifier, Line = 1, Text = ''a''\<rparr>,
            \<lparr>Type = EOF, Line = 1, Text = ''''\<rparr>], [])"
proof -
  have h: "scan [CHR 0x00, CHR ''a'', CHR '' ''] =
     Some ([\<lparr>Type = Identifier, Line = 1, Text = ''a''\<rparr>,
            \<lparr>Type = EOF, Line = 1, Text = ''''\<rparr>], [])"
    by code_simp
  show ?thesis
    using NUL_byte_silent[of "NewScanner [CHR 0x00, CHR ''a'', CHR '' '']"] h
    by (simp add: NewScanner_def)
qed

end
